theory Spec2Isabelle
  imports Complex_Main
begin

section \<open>LevelsQ: level carousel, edge transitions, player animation, pan-follow\<close>

text \<open>
  A shallow embedding of the home-aware version of the game script (the one with
  \<^verbatim>\<open>state.carousel\<close>). JavaScript numbers that hold array indices and counts are
  modelled as \<open>int\<close>; positions, times and zoom factors are modelled as \<open>real\<close>
  (the idealisation of IEEE doubles). The module-level objects \<^verbatim>\<open>state\<close> and
  \<^verbatim>\<open>player\<close> are records that every operation takes and returns; \<^verbatim>\<open>levelData\<close>
  and the canvas width \<^verbatim>\<open>W\<close> are passed as arguments; each call of
  \<^verbatim>\<open>Math.random()\<close> and \<^verbatim>\<open>performance.now()\<close> is an argument holding the value
  returned by that call.
\<close>

subsection \<open>Data model\<close>

datatype edge = EdgeLeft | EdgeRight

datatype animMode = Idle | Walk

text \<open>
  The object \<^verbatim>\<open>state\<close>. \<open>levelIndex\<close> is an option because the carousel operations
  return an array read, which is \<^verbatim>\<open>undefined\<close> (here \<open>None\<close>) out of range;
  \<open>lastEdge\<close> is \<^verbatim>\<open>null\<close> (here \<open>None\<close>) until the first edge trigger.
\<close>

record state =
  levelIndex :: "int option"
  transitioning :: bool
  transitionUntil :: real
  lastEdge :: "edge option"
  carousel :: "int list"
  carouselPos :: int
  homeIndex :: int

text \<open>The object \<^verbatim>\<open>player\<close>; the field \<^verbatim>\<open>x\<close> is called \<open>xpos\<close> here.\<close>

record player =
  xpos :: real
  speed :: real
  visible :: bool
  facing :: int
  anim :: animMode
  frameIndex :: int
  frameTimer :: real
  renderW :: real
  renderH :: real


definition initialPlayer :: "real \<Rightarrow> player" where
  "initialPlayer W = \<lparr>xpos = of_int \<lfloor>W / 2\<rfloor>, speed = 90, visible = True, facing = 1, anim = Idle,
     frameIndex = 0, frameTimer = 0, renderW = 26, renderH = 56\<rparr>"

subsection \<open>Helpers\<close>

definition clamp :: "real \<Rightarrow> real \<Rightarrow> real \<Rightarrow> real" where
  "clamp v mn mx = max mn (min mx v)"

text \<open>
  \<^verbatim>\<open>randInt(min, maxInclusive)\<close>; the first argument \<open>u\<close> is the value of
  \<^verbatim>\<open>Math.random()\<close>, a number with \<open>0 \<le> u < 1\<close>.
\<close>

definition randInt :: "real \<Rightarrow> int \<Rightarrow> int \<Rightarrow> int" where
  "randInt u mn maxInclusive = \<lfloor>u * of_int (maxInclusive - mn + 1)\<rfloor> + mn"

definition isHomeIndex :: "state \<Rightarrow> int \<Rightarrow> bool" where
  "isHomeIndex s i \<longleftrightarrow> homeIndex s \<noteq> - 1 \<and> i = homeIndex s"

text \<open>
  A JavaScript array read \<^verbatim>\<open>xs[i]\<close> at an integer \<open>i\<close>: \<^verbatim>\<open>undefined\<close> out of
  range.
\<close>

definition arrayAt :: "'a list \<Rightarrow> int \<Rightarrow> 'a option" where
  "arrayAt xs i = (if 0 \<le> i \<and> i < int (length xs) then Some (xs ! nat i) else None)"

text \<open>
  The remainder operator \<^verbatim>\<open>a % b\<close> on integers with \<open>b > 0\<close>: the result takes the
  sign of the dividend. (For \<open>b = 0\<close> JavaScript yields \<^verbatim>\<open>NaN\<close>; lemma
  \<open>allUsed_carousel_nonempty\<close> below shows that the two uses of the operator never
  meet that case.)
\<close>

definition jsRem :: "int \<Rightarrow> int \<Rightarrow> int" where
  "jsRem a b = (if 0 \<le> a then a mod b else - ((- a) mod b))"

subsection \<open>Carousel helpers\<close>

text \<open>Only the length of \<^verbatim>\<open>levelData\<close> matters to the carousel: \<open>n\<close> below.\<close>

definition nonHomeIndices :: "nat \<Rightarrow> state \<Rightarrow> int list" where
  "nonHomeIndices n s = filter (\<lambda>i. \<not> isHomeIndex s i) (map int [0..<n])"

definition usedNonHomeCount :: "state \<Rightarrow> nat" where
  "usedNonHomeCount s = length (filter (\<lambda>i. \<not> isHomeIndex s i) (carousel s))"

definition pickUnusedNonHomeLevelIndex :: "nat \<Rightarrow> real \<Rightarrow> state \<Rightarrow> int" where
  "pickUnusedNonHomeLevelIndex n u s =
     (let pool = filter (\<lambda>i. i \<notin> set (carousel s)) (nonHomeIndices n s)
      in if length pool = 0
         then (case nonHomeIndices n s of [] \<Rightarrow> 0 | i # _ \<Rightarrow> i)
         else pool ! nat (randInt u 0 (int (length pool) - 1)))"

definition initCarouselWithHomeOrFallback :: "nat \<Rightarrow> real \<Rightarrow> state \<Rightarrow> state" where
  "initCarouselWithHomeOrFallback n u s =
     (if homeIndex s \<noteq> - 1
      then s\<lparr>carousel := [homeIndex s], carouselPos := 0, levelIndex := Some (homeIndex s)\<rparr>
      else let startIdx = randInt u 0 (int n - 1)
           in s\<lparr>carousel := [startIdx], carouselPos := 0, levelIndex := Some startIdx\<rparr>)"

definition allUsed :: "nat \<Rightarrow> state \<Rightarrow> bool" where
  "allUsed n s \<longleftrightarrow> usedNonHomeCount s \<ge> length (nonHomeIndices n s)"

definition carouselMoveRight :: "nat \<Rightarrow> real \<Rightarrow> state \<Rightarrow> int option \<times> state" where
  "carouselMoveRight n u s =
     (if n \<le> 1 then (levelIndex s, s)
      else if allUsed n s then
        (let s' = s\<lparr>carouselPos := jsRem (carouselPos s + 1) (int (length (carousel s)))\<rparr>
         in (arrayAt (carousel s') (carouselPos s'), s'))
      else if carouselPos s < int (length (carousel s)) - 1 then
        (let s' = s\<lparr>carouselPos := carouselPos s + 1\<rparr>
         in (arrayAt (carousel s') (carouselPos s'), s'))
      else
        (let nextIdx = pickUnusedNonHomeLevelIndex n u s;
             pushed = carousel s @ [nextIdx]
         in (Some nextIdx, s\<lparr>carousel := pushed, carouselPos := int (length pushed) - 1\<rparr>)))"

definition carouselMoveLeft :: "nat \<Rightarrow> real \<Rightarrow> state \<Rightarrow> int option \<times> state" where
  "carouselMoveLeft n u s =
     (if n \<le> 1 then (levelIndex s, s)
      else if allUsed n s then
        (let s' = s\<lparr>carouselPos :=
                      jsRem (carouselPos s - 1 + int (length (carousel s)))
                            (int (length (carousel s)))\<rparr>
         in (arrayAt (carousel s') (carouselPos s'), s'))
      else if carouselPos s > 0 then
        (let s' = s\<lparr>carouselPos := carouselPos s - 1\<rparr>
         in (arrayAt (carousel s') (carouselPos s'), s'))
      else
        (let prevIdx = pickUnusedNonHomeLevelIndex n u s
         in (Some prevIdx, s\<lparr>carousel := prevIdx # carousel s, carouselPos := 0\<rparr>)))"

subsection \<open>Edge transitions\<close>

definition setAnim :: "animMode \<Rightarrow> player \<Rightarrow> player" where
  "setAnim next p =
     (if anim p = next then p else p\<lparr>anim := next, frameIndex := 0, frameTimer := 0\<rparr>)"

text \<open>\<^verbatim>\<open>triggerEdge(edge)\<close>; \<open>now\<close> is the value of \<^verbatim>\<open>performance.now()\<close>.\<close>

definition triggerEdge :: "edge \<Rightarrow> real \<Rightarrow> state \<times> player \<Rightarrow> state \<times> player" where
  "triggerEdge e now sp =
     (case sp of (s, p) \<Rightarrow>
        if transitioning s then (s, p)
        else (s\<lparr>transitioning := True, transitionUntil := now + 60, lastEdge := Some e\<rparr>,
              p\<lparr>visible := False\<rparr>))"

text \<open>\<^verbatim>\<open>finishTransition()\<close>; \<open>W\<close> is the canvas width, \<open>n\<close> the number of levels.\<close>

definition finishTransition :: "real \<Rightarrow> nat \<Rightarrow> real \<Rightarrow> state \<times> player \<Rightarrow> state \<times> player" where
  "finishTransition W n u sp =
     (case sp of (s, p) \<Rightarrow>
        let (r, s1) = (if lastEdge s = Some EdgeLeft then carouselMoveLeft n u s
                       else carouselMoveRight n u s);
            s2 = s1\<lparr>levelIndex := r\<rparr>;
            p1 = (if lastEdge s2 = Some EdgeLeft
                  then p\<lparr>xpos := W - renderW p - 2, facing := - 1\<rparr>
                  else p\<lparr>xpos := 2, facing := 1\<rparr>);
            p2 = setAnim Idle p1
        in (s2\<lparr>transitioning := False\<rparr>, p2\<lparr>visible := True\<rparr>))"

subsection \<open>The frame loop\<close>

text \<open>
  The part of \<^verbatim>\<open>loop\<close> that animates the player (the block after the edge checks).
  \<open>idleLen\<close> and \<open>walkLen\<close> are the lengths of \<^verbatim>\<open>heroIdleFrames\<close> and
  \<^verbatim>\<open>heroWalkFrames\<close>; the frame rates are those of \<^verbatim>\<open>SPRITES\<close> (idle 6, walk 12).
\<close>

definition currentFramesLength :: "nat \<Rightarrow> nat \<Rightarrow> player \<Rightarrow> nat" where
  "currentFramesLength idleLen walkLen p = (if anim p = Walk then walkLen else idleLen)"

definition currentFps :: "player \<Rightarrow> real" where
  "currentFps p = (if anim p = Walk then 12 else 6)"

definition animatePlayer :: "nat \<Rightarrow> nat \<Rightarrow> real \<Rightarrow> player \<Rightarrow> player" where
  "animatePlayer idleLen walkLen dt p =
     (let fps = currentFps p;
          p1 = p\<lparr>frameTimer := frameTimer p + dt\<rparr>
      in if frameTimer p1 \<ge> 1 / fps then
           (let p2 = p1\<lparr>frameTimer := frameTimer p1 - 1 / fps\<rparr>;
                framesLen = (if currentFramesLength idleLen walkLen p2 = 0 then 1
                             else currentFramesLength idleLen walkLen p2)
            in p2\<lparr>frameIndex := jsRem (frameIndex p2 + 1) (int framesLen)\<rparr>)
         else p1)"

text \<open>The object \<^verbatim>\<open>input\<close>.\<close>

record input =
  left :: bool
  right :: bool

text \<open>
  The state effect of \<^verbatim>\<open>drawPlayer()\<close>: the frame index is reduced modulo the number
  of frames of the current mode. (What is painted on the canvas is not modelled.)
\<close>

definition drawPlayer :: "nat \<Rightarrow> nat \<Rightarrow> player \<Rightarrow> player" where
  "drawPlayer idleLen walkLen p =
     (if \<not> visible p then p
      else if currentFramesLength idleLen walkLen p = 0 then p
      else p\<lparr>frameIndex := jsRem (frameIndex p) (int (currentFramesLength idleLen walkLen p))\<rparr>)"

text \<open>
  One call of \<^verbatim>\<open>loop(t)\<close> on the triple \<^verbatim>\<open>(lastT, state, player)\<close>. \<open>now\<close> is the
  value of the one \<^verbatim>\<open>performance.now()\<close> the call evaluates and \<open>u\<close> that of the
  \<^verbatim>\<open>Math.random()\<close> a carousel move may draw. The timers of the level's animated
  layers, which the draw calls advance, are not part of this triple and are left out.
\<close>

definition loop ::
  "real \<Rightarrow> nat \<Rightarrow> nat \<Rightarrow> nat \<Rightarrow> input \<Rightarrow> real \<Rightarrow> real \<Rightarrow> real
     \<Rightarrow> real \<times> state \<times> player \<Rightarrow> real \<times> state \<times> player" where
  "loop W n idleLen walkLen inp now u t g =
     (case g of (lastT, s, p) \<Rightarrow>
        let dt = min 0.033 ((t - lastT) / 1000);
            (s', p') =
              (if \<not> transitioning s then
                 (let vx = (if left inp then - 1 else 0) + (if right inp then 1 else (0::int));
                      p1 = (if vx \<noteq> 0 then p\<lparr>facing := (if vx > 0 then 1 else - 1)\<rparr> else p);
                      p2 = setAnim (if vx = 0 then Idle else Walk) p1;
                      p3 = p2\<lparr>xpos := xpos p2 + of_int vx * speed p2 * dt\<rparr>;
                      (s4, p4) =
                        (if xpos p3 \<le> 0 then triggerEdge EdgeLeft now (s, p3\<lparr>xpos := 0\<rparr>)
                         else if xpos p3 \<ge> W - renderW p3
                         then triggerEdge EdgeRight now (s, p3\<lparr>xpos := W - renderW p3\<rparr>)
                         else (s, p3))
                  in (s4, animatePlayer idleLen walkLen dt p4))
               else if now \<ge> transitionUntil s then finishTransition W n u (s, p)
               else (s, p))
        in (t, s', drawPlayer idleLen walkLen p'))"

subsection \<open>Layer assets\<close>

datatype align = AlignBg | AlignScreen

text \<open>
  A loaded optional layer: \<^verbatim>\<open>{kind:"image", img, align}\<close> or
  \<^verbatim>\<open>{kind:"frames", frames, fps, timer, frameIndex, align}\<close>. An image handle is
  represented by the source path it was loaded from.
\<close>

type_synonym image = string

datatype layerAsset =
  ImageAsset image align
| FramesAsset "image list" real real int align

subsection \<open>Zoom and pan follow\<close>

definition MAX_PAN_PX :: real where
  "MAX_PAN_PX = 55"

definition getHeroNormalizedX :: "real \<Rightarrow> player \<Rightarrow> real" where
  "getHeroNormalizedX W p =
     (let range = max 1 (W - renderW p);
          t = clamp (xpos p / range) 0 1
      in t * 2 - 1)"

text \<open>The constant \<^verbatim>\<open>pan\<close> that \<^verbatim>\<open>drawZoomPanFollow\<close> computes.\<close>

definition panOf :: "real \<Rightarrow> player \<Rightarrow> real \<Rightarrow> real \<Rightarrow> real" where
  "panOf W p zoom followStrength =
     (let drawW = W * zoom;
          maxFromZoom = (drawW - W) / 2;
          maxPan = min maxFromZoom MAX_PAN_PX;
          heroN = getHeroNormalizedX W p
      in clamp (heroN * maxPan * clamp followStrength 0 1) (- maxPan) maxPan)"

text \<open>
  \<^verbatim>\<open>drawZoomPanFollow(img, zoom, followStrength)\<close>: the arguments \<open>(x, y, drawW, drawH)\<close>
  of the one \<^verbatim>\<open>ctx.drawImage\<close> call, or \<open>None\<close> when \<^verbatim>\<open>img\<close> is null and
  nothing is drawn.
\<close>

definition drawZoomPanFollow ::
  "real \<Rightarrow> real \<Rightarrow> player \<Rightarrow> image option \<Rightarrow> real \<Rightarrow> real \<Rightarrow> (real \<times> real \<times> real \<times> real) option" where
  "drawZoomPanFollow W H p img zoom followStrength =
     (case img of
        None \<Rightarrow> None
      | Some _ \<Rightarrow>
          (let drawW = W * zoom;
               drawH = H * zoom;
               pan = panOf W p zoom followStrength;
               x = - (drawW - W) / 2 + pan;
               y = - (drawH - H) / 2
           in Some (x, y, drawW, drawH)))"

subsection \<open>Level loading\<close>

text \<open>
  A layer entry and a level entry of \<^verbatim>\<open>data/levels.json\<close>. An optional string field
  is \<open>None\<close> when the entry lacks it; a missing \<^verbatim>\<open>count\<close> or \<^verbatim>\<open>fps\<close> is \<open>0\<close>,
  which the code treats like a missing one. \<open>isHome\<close> holds exactly when the entry's
  \<^verbatim>\<open>isHome\<close> is the value \<^verbatim>\<open>true\<close>. The field \<^verbatim>\<open>id\<close> is called \<open>levelId\<close>.
\<close>

record layerSpec =
  specType :: "string option"
  specAlign :: "string option"
  specSrc :: "string option"
  specFolder :: "string option"
  specCount :: nat
  specFps :: real

record level =
  levelId :: "string option"
  background :: "string option"
  foreground :: "string option"
  layer1 :: "layerSpec option"
  layer2 :: "layerSpec option"
  layer3 :: "layerSpec option"
  layer4 :: "layerSpec option"
  isHome :: bool

text \<open>The value stored in \<^verbatim>\<open>levelAssets\<close> for one level.\<close>

record levelAssets =
  bgImg :: image
  fgImg :: "image option"
  l1 :: "layerAsset option"
  l2 :: "layerAsset option"
  l3 :: "layerAsset option"
  l4 :: "layerAsset option"

text \<open>Truthiness of an optional string: present and not empty.\<close>

definition truthy :: "string option \<Rightarrow> bool" where
  "truthy v \<longleftrightarrow> v \<noteq> None \<and> v \<noteq> Some []"

text \<open>\<^verbatim>\<open>v || d\<close> on an optional string.\<close>

definition orElse :: "string option \<Rightarrow> string \<Rightarrow> string" where
  "orElse v d = (case v of None \<Rightarrow> d | Some w \<Rightarrow> if w = [] then d else w)"

definition lowerChar :: "char \<Rightarrow> char" where
  "lowerChar c =
     (let k = (of_char c :: nat) in if 65 \<le> k \<and> k \<le> 90 then char_of (k + 32) else c)"

definition toLowerCase :: "string \<Rightarrow> string" where
  "toLowerCase w = map lowerChar w"

text \<open>
  \<^verbatim>\<open>loadImage(src)\<close>: the promise resolves to the image or rejects. Which sources load
  is the argument \<open>loads\<close>; \<open>None\<close> is the rejection. (Warnings written to the console
  are not modelled.)
\<close>

definition loadImage :: "(string \<Rightarrow> bool) \<Rightarrow> string \<Rightarrow> image option" where
  "loadImage loads src = (if loads src then Some src else None)"

definition digitChar :: "nat \<Rightarrow> char" where
  "digitChar d = char_of (48 + d)"

fun decimal :: "nat \<Rightarrow> string" where
  "decimal k = (if k < 10 then [digitChar k] else decimal (k div 10) @ [digitChar (k mod 10)])"

declare decimal.simps [simp del]

definition padStart2 :: "string \<Rightarrow> string" where
  "padStart2 w = replicate (2 - length w) (CHR ''0'') @ w"

definition frameSrc :: "string \<Rightarrow> nat \<Rightarrow> string" where
  "frameSrc folder i = folder @ ''/frame_'' @ padStart2 (decimal i) @ ''.png''"

text \<open>
  \<^verbatim>\<open>loadFrameSequenceCounted(folder, count)\<close>: frames \<open>1\<close> to \<open>count\<close>, all of which
  must load.
\<close>

definition loadFrameSequenceCounted :: "(string \<Rightarrow> bool) \<Rightarrow> string \<Rightarrow> nat \<Rightarrow> image list option" where
  "loadFrameSequenceCounted loads folder count =
     (let srcs = map (frameSrc folder) [1..<Suc count]
      in if list_all loads srcs then Some srcs else None)"

definition DEFAULT_LAYER_FPS :: real where
  "DEFAULT_LAYER_FPS = 12"

text \<open>
  \<^verbatim>\<open>loadOptionalLayer(levelId, layerSpec, layerName)\<close>; the two names only label the
  warnings and are left out. The result \<open>None\<close> is \<^verbatim>\<open>null\<close>: the function catches
  every load failure itself.
\<close>

definition loadOptionalLayer :: "(string \<Rightarrow> bool) \<Rightarrow> layerSpec option \<Rightarrow> layerAsset option" where
  "loadOptionalLayer loads layerSpec =
     (case layerSpec of
        None \<Rightarrow> None
      | Some sp \<Rightarrow>
          (let type = toLowerCase (orElse (specType sp) ''frames'');
               align = toLowerCase (orElse (specAlign sp) ''screen'');
               safeAlign = (if align = ''bg'' then AlignBg else AlignScreen)
           in if type = ''image'' then
                (if \<not> truthy (specSrc sp) then None
                 else case loadImage loads (the (specSrc sp)) of
                        Some img \<Rightarrow> Some (ImageAsset img safeAlign)
                      | None \<Rightarrow> None)
              else if type = ''frames'' then
                (let count = specCount sp
                 in if count = 0 then None
                    else let fps = (if specFps sp = 0 then DEFAULT_LAYER_FPS else specFps sp)
                         in if \<not> truthy (specFolder sp) then None
                            else case loadFrameSequenceCounted loads (the (specFolder sp)) count of
                                   Some frames \<Rightarrow> Some (FramesAsset frames fps 0 0 safeAlign)
                                 | None \<Rightarrow> None)
              else None))"

text \<open>
  The \<^verbatim>\<open>for (const lvl of json.levels)\<close> loop of \<^verbatim>\<open>loadLevels\<close>, on the pair
  \<^verbatim>\<open>(loadedLevels, levelAssets)\<close>.
\<close>

fun loadEach ::
  "(string \<Rightarrow> bool) \<Rightarrow> level list \<Rightarrow> level list \<times> (string \<rightharpoonup> levelAssets)
     \<Rightarrow> level list \<times> (string \<rightharpoonup> levelAssets)" where
  "loadEach loads [] acc = acc"
| "loadEach loads (lvl # rest) (loadedLevels, assets) =
     (let ident = orElse (levelId lvl) ''(missing id)''
      in if \<not> truthy (background lvl) then loadEach loads rest (loadedLevels, assets)
         else case loadImage loads (the (background lvl)) of
                None \<Rightarrow> loadEach loads rest (loadedLevels, assets)
              | Some bg \<Rightarrow>
                  (let fg = (if truthy (foreground lvl)
                             then loadImage loads (the (foreground lvl)) else None);
                       a1 = loadOptionalLayer loads (layer1 lvl);
                       a2 = loadOptionalLayer loads (layer2 lvl);
                       a3 = loadOptionalLayer loads (layer3 lvl);
                       a4 = loadOptionalLayer loads (layer4 lvl)
                   in loadEach loads rest
                        (loadedLevels @ [lvl],
                         assets(ident \<mapsto> \<lparr>bgImg = bg, fgImg = fg, l1 = a1, l2 = a2,
                                           l3 = a3, l4 = a4\<rparr>))))"

text \<open>
  What \<^verbatim>\<open>fetch("data/levels.json")\<close> and \<^verbatim>\<open>res.json()\<close> deliver: the request may
  reject, the response may be not ok (with its status), the body may fail to parse, or
  the parsed document has a \<^verbatim>\<open>levels\<close> member that is missing, not an array, or an array.
\<close>

datatype levelsMember = LevelsMissing | LevelsNotArray | LevelsArray "level list"

datatype fetched = FetchRejected | ResponseNotOk nat | BodyNotJson | Document levelsMember

datatype loadError = NetworkError | HttpError nat | ParseError | BadConfig | NoValidLevels

text \<open>\<^verbatim>\<open>Array.prototype.findIndex\<close>: the first index that satisfies \<open>P\<close>, or \<open>-1\<close>.\<close>

fun findIndexFrom :: "('a \<Rightarrow> bool) \<Rightarrow> int \<Rightarrow> 'a list \<Rightarrow> int" where
  "findIndexFrom P i [] = - 1"
| "findIndexFrom P i (x # xs) = (if P x then i else findIndexFrom P (i + 1) xs)"

definition findIndex :: "('a \<Rightarrow> bool) \<Rightarrow> 'a list \<Rightarrow> int" where
  "findIndex P xs = findIndexFrom P 0 xs"

text \<open>
  \<^verbatim>\<open>loadLevels()\<close>: a thrown error is \<open>Inl\<close>; on success the new \<^verbatim>\<open>levelData\<close>,
  \<^verbatim>\<open>levelAssets\<close> and \<^verbatim>\<open>state\<close>. \<open>assets0\<close> is \<^verbatim>\<open>levelAssets\<close> before the call.
\<close>

definition loadLevels ::
  "(string \<Rightarrow> bool) \<Rightarrow> fetched \<Rightarrow> real \<Rightarrow> (string \<rightharpoonup> levelAssets) \<Rightarrow> state
     \<Rightarrow> loadError + (level list \<times> (string \<rightharpoonup> levelAssets) \<times> state)" where
  "loadLevels loads res u assets0 s =
     (case res of
        FetchRejected \<Rightarrow> Inl NetworkError
      | ResponseNotOk status \<Rightarrow> Inl (HttpError status)
      | BodyNotJson \<Rightarrow> Inl ParseError
      | Document LevelsMissing \<Rightarrow> Inl BadConfig
      | Document LevelsNotArray \<Rightarrow> Inl BadConfig
      | Document (LevelsArray levels) \<Rightarrow>
          if length levels = 0 then Inl BadConfig
          else (let (loadedLevels, assets) = loadEach loads levels ([], assets0)
                in if length loadedLevels = 0 then Inl NoValidLevels
                   else (let s1 = s\<lparr>homeIndex := findIndex isHome loadedLevels\<rparr>
                         in Inr (loadedLevels, assets,
                                 initCarouselWithHomeOrFallback (length loadedLevels) u s1))))"

subsection \<open>Invariants and derived notions\<close>

text \<open>\<^verbatim>\<open>state.homeIndex\<close> is \<open>-1\<close> or an index of \<^verbatim>\<open>levelData\<close>.\<close>

definition homeOk :: "nat \<Rightarrow> state \<Rightarrow> bool" where
  "homeOk n s \<longleftrightarrow> homeIndex s = - 1 \<or> (0 \<le> homeIndex s \<and> homeIndex s < int n)"

text \<open>
  The carousel invariant: no index twice, no more entries than levels, and the cursor
  inside the history.
\<close>

definition carouselInv :: "nat \<Rightarrow> state \<Rightarrow> bool" where
  "carouselInv n s \<longleftrightarrow>
     distinct (carousel s) \<and> length (carousel s) \<le> n \<and>
     0 \<le> carouselPos s \<and> carouselPos s < int (length (carousel s))"

text \<open>
  A run of carousel moves in either direction, each with the random value it may draw.
\<close>

datatype carouselMove = MoveLeft real | MoveRight real

fun drawOf :: "carouselMove \<Rightarrow> real" where
  "drawOf (MoveLeft u) = u"
| "drawOf (MoveRight u) = u"

fun applyMoves :: "nat \<Rightarrow> carouselMove list \<Rightarrow> state \<Rightarrow> state" where
  "applyMoves n [] s = s"
| "applyMoves n (MoveLeft u # ms) s = applyMoves n ms (snd (carouselMoveLeft n u s))"
| "applyMoves n (MoveRight u # ms) s = applyMoves n ms (snd (carouselMoveRight n u s))"

text \<open>A run of rightward moves, one random value for each.\<close>

fun moveRights :: "nat \<Rightarrow> real list \<Rightarrow> state \<Rightarrow> state" where
  "moveRights n [] s = s"
| "moveRights n (u # us) s = moveRights n us (snd (carouselMoveRight n u s))"

text \<open>
  The shape of the carousel after \<open>k\<close> rightward moves from a start seeded with the home
  index \<open>h\<close>: \<open>k + 1\<close> different level indices, the home index first, the cursor on the
  last one.
\<close>

definition ringInv :: "nat \<Rightarrow> int \<Rightarrow> nat \<Rightarrow> state \<Rightarrow> bool" where
  "ringInv n h k s \<longleftrightarrow>
     homeIndex s = h \<and> distinct (carousel s) \<and> set (carousel s) \<subseteq> {0..<int n} \<and>
     length (carousel s) = Suc k \<and> carousel s ! 0 = h \<and> carouselPos s = int k"

text \<open>A level passes background validation: it names a background and the image loads.\<close>

definition backgroundLoads :: "(string \<Rightarrow> bool) \<Rightarrow> level \<Rightarrow> bool" where
  "backgroundLoads loads lvl \<longleftrightarrow> truthy (background lvl) \<and> loads (the (background lvl))"

text \<open>
  \<^verbatim>\<open>currentFrames().length || 1\<close>, the modulus of the player's frame step.
\<close>

definition framesLen :: "nat \<Rightarrow> nat \<Rightarrow> player \<Rightarrow> nat" where
  "framesLen idleLen walkLen p =
     (if currentFramesLength idleLen walkLen p = 0 then 1 else currentFramesLength idleLen walkLen p)"

text \<open>
  The animation mode a tick of \<^verbatim>\<open>loop\<close> selects: \<^verbatim>\<open>vx === 0 ? "idle" : "walk"\<close>,
  where \<^verbatim>\<open>vx\<close> is zero exactly when both keys or neither are held.
\<close>

definition tickMode :: "input \<Rightarrow> animMode" where
  "tickMode inp = (if left inp = right inp then Idle else Walk)"

subsection \<open>An example configuration\<close>





subsection \<open>Single-level pool\<close>

text \<open>
  Claim C8. With exactly one loaded level, \<open>carouselMoveLeft\<close> and \<open>carouselMoveRight\<close>
  both return the current level index and leave the whole state, in particular the
  carousel sequence and the cursor, as it was.
\<close>

theorem single_level_moves_noop:
  "carouselMoveRight 1 u s = (levelIndex s, s) \<and> carouselMoveLeft 1 u s = (levelIndex s, s)"
  by (simp add: carouselMoveRight_def carouselMoveLeft_def)

subsection \<open>The transition guard\<close>

text \<open>
  Claim C5. While the state machine is in the transitioning mode, \<open>triggerEdge\<close> changes
  nothing, whichever edge it is given: \<open>transitionUntil\<close>, \<open>lastEdge\<close>,
  \<open>transitioning\<close> and the player's visibility all keep their values.
\<close>

theorem triggerEdge_idempotent_guard:
  assumes "transitioning s"
  shows "triggerEdge e now (s, p) = (s, p)"
  using assms by (simp add: triggerEdge_def)

theorem triggerEdge_idempotent_guard_witness:
  "triggerEdge EdgeRight 1000
     (triggerEdge EdgeLeft 500
        (\<lparr>levelIndex = Some 0, transitioning = False, transitionUntil = 0, lastEdge = None,
          carousel = [0], carouselPos = 0, homeIndex = 0\<rparr>,
         \<lparr>xpos = 0, speed = 90, visible = True, facing = 1, anim = Walk, frameIndex = 0,
          frameTimer = 0, renderW = 26, renderH = 56\<rparr>))
   = (\<lparr>levelIndex = Some 0, transitioning = True, transitionUntil = 560,
       lastEdge = Some EdgeLeft, carousel = [0], carouselPos = 0, homeIndex = 0\<rparr>,
      \<lparr>xpos = 0, speed = 90, visible = False, facing = 1, anim = Walk, frameIndex = 0,
       frameTimer = 0, renderW = 26, renderH = 56\<rparr>)"
proof -
  let ?s = "\<lparr>levelIndex = Some 0, transitioning = True, transitionUntil = 560,
       lastEdge = Some EdgeLeft, carousel = [0], carouselPos = 0, homeIndex = 0\<rparr>"
  have t: "transitioning ?s" by simp
  show ?thesis
    using triggerEdge_idempotent_guard [OF t, of EdgeRight 1000]
    by (simp add: triggerEdge_def)
qed

subsection \<open>Facts about the carousel helpers\<close>

lemma set_nonHomeIndices:
  "set (nonHomeIndices n s) = {i. 0 \<le> i \<and> i < int n \<and> \<not> isHomeIndex s i}"
proof -
  have "\<And>x. 0 \<le> x \<Longrightarrow> x < int n \<Longrightarrow> x \<in> int ` {0..<n}"
  proof -
    fix x :: int assume "0 \<le> x" "x < int n"
    then have "nat x \<in> {0..<n}" "x = int (nat x)" by auto
    then show "x \<in> int ` {0..<n}" by blast
  qed
  then show ?thesis by (auto simp: nonHomeIndices_def)
qed

lemma distinct_nonHomeIndices: "distinct (nonHomeIndices n s)"
  by (simp add: nonHomeIndices_def distinct_map)

lemma length_filter_eq_le_one:
  assumes "distinct xs"
  shows "length (filter (\<lambda>i. i = h) xs) \<le> 1"
  using assms by (induction xs) (auto simp: filter_empty_conv)

lemma length_nonHomeIndices_ge: "n - 1 \<le> length (nonHomeIndices n s)"
proof -
  let ?xs = "map int [0..<n]"
  have d: "distinct ?xs" by (simp add: distinct_map)
  have "length (filter (\<lambda>i. isHomeIndex s i) ?xs) \<le> length (filter (\<lambda>i. i = homeIndex s) ?xs)"
    unfolding isHomeIndex_def
    by (cases "homeIndex s = - 1") simp_all
  also have "\<dots> \<le> 1" using d by (rule length_filter_eq_le_one)
  finally have h: "length (filter (\<lambda>i. isHomeIndex s i) ?xs) \<le> 1" .
  have "length (filter (\<lambda>i. isHomeIndex s i) ?xs) + length (filter (\<lambda>i. \<not> isHomeIndex s i) ?xs)
        = length ?xs"
    by (rule sum_length_filter_compl)
  with h show ?thesis by (simp add: nonHomeIndices_def)
qed

lemma allUsed_carousel_nonempty:
  assumes "1 < n" and "allUsed n s"
  shows "carousel s \<noteq> []"
proof
  assume "carousel s = []"
  then have "usedNonHomeCount s = 0" by (simp add: usedNonHomeCount_def)
  moreover have "1 \<le> length (nonHomeIndices n s)"
    using length_nonHomeIndices_ge [of n s] assms(1) by simp
  ultimately show False using assms(2) by (simp add: allUsed_def)
qed

lemma pool_nonempty:
  assumes "distinct (carousel s)" and "\<not> allUsed n s"
  shows "filter (\<lambda>i. i \<notin> set (carousel s)) (nonHomeIndices n s) \<noteq> []"
proof -
  let ?A = "set (nonHomeIndices n s)"
  let ?B = "set (filter (\<lambda>i. \<not> isHomeIndex s i) (carousel s))"
  have cB: "card ?B = usedNonHomeCount s"
    using assms(1) by (simp only: usedNonHomeCount_def distinct_card [OF distinct_filter])
  have cA: "card ?A = length (nonHomeIndices n s)"
    by (simp add: distinct_card distinct_nonHomeIndices)
  have "card ?B < card ?A" using assms(2) cA cB by (simp add: allUsed_def)
  then have "\<not> ?A \<subseteq> ?B" by (meson List.finite_set card_mono not_less)
  then obtain i where i: "i \<in> ?A" "i \<notin> ?B" by blast
  then have "i \<notin> set (carousel s)" by (auto simp: set_nonHomeIndices)
  with i(1) show ?thesis by (auto simp: filter_empty_conv)
qed

lemma randInt_range:
  assumes "0 \<le> u" "u < 1" "0 < m"
  shows "0 \<le> randInt u 0 (m - 1) \<and> randInt u 0 (m - 1) < m"
proof -
  have a: "0 \<le> u * of_int m" using assms by simp
  have b: "u * of_int m < of_int m" using assms by simp
  from a b show ?thesis by (simp add: randInt_def floor_less_iff)
qed

lemma pick_in_pool:
  assumes "distinct (carousel s)" "\<not> allUsed n s" "0 \<le> u" "u < 1"
  shows "pickUnusedNonHomeLevelIndex n u s
           \<in> set (filter (\<lambda>i. i \<notin> set (carousel s)) (nonHomeIndices n s))"
proof -
  let ?pool = "filter (\<lambda>i. i \<notin> set (carousel s)) (nonHomeIndices n s)"
  have ne: "?pool \<noteq> []" using assms(1,2) by (rule pool_nonempty)
  then have pos: "0 < int (length ?pool)" by simp
  from randInt_range [OF assms(3,4) pos]
  have "nat (randInt u 0 (int (length ?pool) - 1)) < length ?pool" by linarith
  then have "?pool ! nat (randInt u 0 (int (length ?pool) - 1)) \<in> set ?pool"
    by (rule nth_mem)
  with ne show ?thesis by (simp add: pickUnusedNonHomeLevelIndex_def Let_def)
qed

lemma pick_fresh:
  assumes "distinct (carousel s)" "\<not> allUsed n s" "0 \<le> u" "u < 1"
  shows "pickUnusedNonHomeLevelIndex n u s \<notin> set (carousel s)"
    and "0 \<le> pickUnusedNonHomeLevelIndex n u s"
    and "pickUnusedNonHomeLevelIndex n u s < int n"
    and "\<not> isHomeIndex s (pickUnusedNonHomeLevelIndex n u s)"
  using pick_in_pool [OF assms] by (auto simp: set_nonHomeIndices)

lemma jsRem_range:
  assumes "0 \<le> a" "0 < b"
  shows "0 \<le> jsRem a b \<and> jsRem a b < b"
  using assms by (simp add: jsRem_def)

lemma length_nonHomeIndices_le: "length (nonHomeIndices n s) \<le> n"
  using length_filter_le [of "\<lambda>i. \<not> isHomeIndex s i" "map int [0..<n]"]
  by (simp add: nonHomeIndices_def)

lemma length_nonHomeIndices_home:
  assumes "0 \<le> homeIndex s" "homeIndex s < int n"
  shows "length (nonHomeIndices n s) = n - 1"
proof -
  let ?xs = "map int [0..<n]"
  have d: "distinct ?xs" by (simp add: distinct_map)
  have m: "homeIndex s \<in> set ?xs"
  proof -
    have "nat (homeIndex s) \<in> {0..<n}" "homeIndex s = int (nat (homeIndex s))"
      using assms by auto
    then show ?thesis by (metis image_eqI set_map set_upt)
  qed
  have "filter (\<lambda>i. isHomeIndex s i) ?xs = filter (\<lambda>i. i = homeIndex s) ?xs"
    using assms by (auto simp: isHomeIndex_def intro!: filter_cong)
  moreover have "length (filter (\<lambda>i. i = homeIndex s) ?xs) = 1"
  proof -
    have "set (filter (\<lambda>i. i = homeIndex s) ?xs) = {homeIndex s}" using m by auto
    moreover have "distinct (filter (\<lambda>i. i = homeIndex s) ?xs)" using d by (rule distinct_filter)
    ultimately show ?thesis by (metis distinct_card card.empty card_insert_disjoint
      finite.emptyI empty_iff One_nat_def)
  qed
  moreover have "length (filter (\<lambda>i. isHomeIndex s i) ?xs)
                 + length (filter (\<lambda>i. \<not> isHomeIndex s i) ?xs) = length ?xs"
    by (rule sum_length_filter_compl)
  ultimately show ?thesis by (simp add: nonHomeIndices_def)
qed

text \<open>Appending is only reached with room left in the pool.\<close>

lemma append_has_room:
  assumes h: "homeOk n s" and d: "distinct (carousel s)" and nu: "\<not> allUsed n s"
  shows "length (carousel s) < n"
proof -
  let ?c = "carousel s"
  have split: "length (filter (\<lambda>i. isHomeIndex s i) ?c) + usedNonHomeCount s = length ?c"
    unfolding usedNonHomeCount_def by (rule sum_length_filter_compl)
  have lt: "usedNonHomeCount s < length (nonHomeIndices n s)"
    using nu by (simp add: allUsed_def)
  show ?thesis
  proof (cases "filter (\<lambda>i. isHomeIndex s i) ?c = []")
    case True
    with split lt length_nonHomeIndices_le [of n s] show ?thesis by simp
  next
    case False
    then obtain i where "i \<in> set ?c" "isHomeIndex s i"
      by (auto simp: filter_empty_conv)
    then have hi: "homeIndex s \<noteq> - 1" by (simp add: isHomeIndex_def)
    with h have r: "0 \<le> homeIndex s" "homeIndex s < int n" by (auto simp: homeOk_def)
    have "length (filter (\<lambda>i. isHomeIndex s i) ?c) \<le> length (filter (\<lambda>i. i = homeIndex s) ?c)"
      using hi by (simp add: isHomeIndex_def)
    also have "\<dots> \<le> 1" using d by (rule length_filter_eq_le_one)
    finally have "length (filter (\<lambda>i. isHomeIndex s i) ?c) \<le> 1" .
    with split lt length_nonHomeIndices_home [OF r] show ?thesis by linarith
  qed
qed

lemma carouselMoveRight_inv:
  assumes "homeOk n s" "carouselInv n s" "0 \<le> u" "u < 1"
  shows "carouselInv n (snd (carouselMoveRight n u s))"
proof -
  have d: "distinct (carousel s)" using assms(2) by (simp add: carouselInv_def)
  have ne: "0 < int (length (carousel s))" using assms(2) by (auto simp: carouselInv_def)
  show ?thesis
  proof (cases "n \<le> 1")
    case True
    then show ?thesis using assms(2) by (simp add: carouselMoveRight_def)
  next
    case n: False
    show ?thesis
    proof (cases "allUsed n s")
      case True
      have "0 \<le> carouselPos s + 1" using assms(2) by (simp add: carouselInv_def)
      from jsRem_range [OF this ne] n True assms(2) show ?thesis
        by (simp add: carouselMoveRight_def carouselInv_def Let_def)
    next
      case au: False
      show ?thesis
      proof (cases "carouselPos s < int (length (carousel s)) - 1")
        case True
        with n au assms(2) show ?thesis
          by (simp add: carouselMoveRight_def carouselInv_def Let_def)
      next
        case False
        have "pickUnusedNonHomeLevelIndex n u s \<notin> set (carousel s)"
          using d au assms(3,4) by (rule pick_fresh)
        moreover have "length (carousel s) < n"
          using assms(1) d au by (rule append_has_room)
        ultimately show ?thesis using n au False assms(2)
          by (simp add: carouselMoveRight_def carouselInv_def Let_def)
      qed
    qed
  qed
qed

lemma carouselMoveLeft_inv:
  assumes "homeOk n s" "carouselInv n s" "0 \<le> u" "u < 1"
  shows "carouselInv n (snd (carouselMoveLeft n u s))"
proof -
  have d: "distinct (carousel s)" using assms(2) by (simp add: carouselInv_def)
  have ne: "0 < int (length (carousel s))" using assms(2) by (auto simp: carouselInv_def)
  show ?thesis
  proof (cases "n \<le> 1")
    case True
    then show ?thesis using assms(2) by (simp add: carouselMoveLeft_def)
  next
    case n: False
    show ?thesis
    proof (cases "allUsed n s")
      case True
      have "0 \<le> carouselPos s - 1 + int (length (carousel s))"
        using assms(2) by (simp add: carouselInv_def)
      from jsRem_range [OF this ne] n True assms(2) show ?thesis
        by (simp add: carouselMoveLeft_def carouselInv_def Let_def)
    next
      case au: False
      show ?thesis
      proof (cases "carouselPos s > 0")
        case True
        with n au assms(2) show ?thesis
          by (simp add: carouselMoveLeft_def carouselInv_def Let_def)
      next
        case False
        have "pickUnusedNonHomeLevelIndex n u s \<notin> set (carousel s)"
          using d au assms(3,4) by (rule pick_fresh)
        moreover have "length (carousel s) < n"
          using assms(1) d au by (rule append_has_room)
        ultimately show ?thesis using n au False assms(2)
          by (simp add: carouselMoveLeft_def carouselInv_def Let_def)
      qed
    qed
  qed
qed

lemma init_inv:
  assumes "1 \<le> n"
  shows "carouselInv n (initCarouselWithHomeOrFallback n u s)"
  using assms by (simp add: initCarouselWithHomeOrFallback_def carouselInv_def Let_def)

lemma homeIndex_moves:
  "homeIndex (snd (carouselMoveRight n u s)) = homeIndex s"
  "homeIndex (snd (carouselMoveLeft n u s)) = homeIndex s"
  "homeIndex (initCarouselWithHomeOrFallback n u s) = homeIndex s"
  by (simp_all add: carouselMoveRight_def carouselMoveLeft_def
        initCarouselWithHomeOrFallback_def Let_def)

lemma homeOk_moves:
  "homeOk n (snd (carouselMoveRight n u s)) = homeOk n s"
  "homeOk n (snd (carouselMoveLeft n u s)) = homeOk n s"
  "homeOk n (initCarouselWithHomeOrFallback n u s) = homeOk n s"
  by (simp_all add: homeOk_def homeIndex_moves)

text \<open>The invariant holds along every run of moves from a state that meets it.\<close>

lemma applyMoves_invariant:
  assumes "homeOk n s" "carouselInv n s" "\<forall>m\<in>set ms. 0 \<le> drawOf m \<and> drawOf m < 1"
  shows "homeOk n (applyMoves n ms s) \<and> carouselInv n (applyMoves n ms s)"
  using assms
proof (induction ms arbitrary: s)
  case Nil
  then show ?case by simp
next
  case (Cons m ms)
  show ?case
  proof (cases m)
    case (MoveLeft u)
    with Cons.prems have "homeOk n (snd (carouselMoveLeft n u s))"
      and "carouselInv n (snd (carouselMoveLeft n u s))"
      by (simp_all add: homeOk_moves carouselMoveLeft_inv)
    with Cons.IH Cons.prems(3) MoveLeft show ?thesis by simp
  next
    case (MoveRight u)
    with Cons.prems have "homeOk n (snd (carouselMoveRight n u s))"
      and "carouselInv n (snd (carouselMoveRight n u s))"
      by (simp_all add: homeOk_moves carouselMoveRight_inv)
    with Cons.IH Cons.prems(3) MoveRight show ?thesis by simp
  qed
qed

subsection \<open>Moves along the history\<close>

text \<open>In a state that meets the invariant, a non-boundary cursor needs a larger pool.\<close>

lemma non_boundary_pool_size:
  assumes "carouselInv n s" "0 < carouselPos s" "carouselPos s < int (length (carousel s)) - 1"
  shows "1 < n"
  using assms by (simp add: carouselInv_def)

lemma allUsed_cong:
  "carousel s' = carousel s \<Longrightarrow> homeIndex s' = homeIndex s \<Longrightarrow> allUsed n s' = allUsed n s"
  by (simp add: allUsed_def usedNonHomeCount_def nonHomeIndices_def isHomeIndex_def)

text \<open>
  Claim C4. Right and left are inverse along existing history. In a state whose cursor
  is at a non-boundary position of the recorded sequence, \<open>carouselMoveRight\<close> followed
  at once by \<open>carouselMoveLeft\<close> returns the index the cursor started at and gives back
  the starting state: the recorded sequence, hence its length, and the cursor are as
  before. (A non-boundary cursor needs a history of three entries; the pool then has
  more than one level, which is the only thing the proof uses of it.)
\<close>

theorem right_then_left_inverse:
  assumes "1 < n" "0 < carouselPos s" "carouselPos s < int (length (carousel s)) - 1"
  shows "carouselMoveLeft n u2 (snd (carouselMoveRight n u1 s))
         = (Some (carousel s ! nat (carouselPos s)), s)"
proof -
  let ?s1 = "s\<lparr>carouselPos := carouselPos s + 1\<rparr>"
  have n: "\<not> n \<le> 1" using assms(1) by simp
  have r: "jsRem (carouselPos s + 1) (int (length (carousel s))) = carouselPos s + 1"
    using assms by (simp add: jsRem_def)
  have l: "jsRem (carouselPos s + int (length (carousel s))) (int (length (carousel s)))
           = carouselPos s"
    using assms by (simp add: jsRem_def)
  have s1: "snd (carouselMoveRight n u1 s) = ?s1"
    using n r assms by (simp add: carouselMoveRight_def Let_def)
  have au: "allUsed n ?s1 = allUsed n s" by (rule allUsed_cong) simp_all
  have "carouselMoveLeft n u2 ?s1 = (Some (carousel s ! nat (carouselPos s)), s)"
    using n l assms au by (simp add: carouselMoveLeft_def Let_def arrayAt_def)
  with s1 show ?thesis by simp
qed

theorem right_then_left_inverse_witness:
  "carouselMoveLeft 4 0
     (snd (carouselMoveRight 4 0
        \<lparr>levelIndex = Some 2, transitioning = False, transitionUntil = 0, lastEdge = None,
         carousel = [0, 2, 1], carouselPos = 1, homeIndex = 0\<rparr>))
   = (Some 2,
      \<lparr>levelIndex = Some 2, transitioning = False, transitionUntil = 0, lastEdge = None,
       carousel = [0, 2, 1], carouselPos = 1, homeIndex = 0\<rparr>)"
  using right_then_left_inverse [of 4
      "\<lparr>levelIndex = Some 2, transitioning = False, transitionUntil = 0, lastEdge = None,
        carousel = [0, 2, 1], carouselPos = 1, homeIndex = 0\<rparr>" 0 0]
  by simp

lemma used_count_home_first:
  assumes "ringInv n h k s" "0 \<le> h"
  shows "usedNonHomeCount s = k"
proof -
  from assms obtain t where c: "carousel s = h # t" and t: "length t = k" "h \<notin> set t"
    and hi: "homeIndex s = h"
    by (cases "carousel s") (auto simp: ringInv_def)
  have "filter (\<lambda>i. \<not> isHomeIndex s i) t = t"
    using t(2) hi by (auto simp: isHomeIndex_def filter_id_conv)
  moreover have "isHomeIndex s h" using hi assms(2) by (simp add: isHomeIndex_def)
  ultimately show ?thesis using c t(1) by (simp add: usedNonHomeCount_def)
qed

lemma ring_step:
  assumes inv: "ringInv n h k s" and h: "0 \<le> h" "h < int n" and k: "Suc k < n"
    and u: "0 \<le> u" "u < 1"
  shows "ringInv n h (Suc k) (snd (carouselMoveRight n u s))"
proof -
  have hi: "homeIndex s = h" using inv by (simp add: ringInv_def)
  have n: "\<not> n \<le> 1" using k by simp
  have "length (nonHomeIndices n s) = n - 1"
    using h hi by (simp add: length_nonHomeIndices_home)
  with used_count_home_first [OF inv h(1)] k
  have au: "\<not> allUsed n s" by (simp add: allUsed_def)
  have d: "distinct (carousel s)" using inv by (simp add: ringInv_def)
  note p = pick_fresh [OF d au u]
  have e: "\<not> carouselPos s < int (length (carousel s)) - 1"
    using inv by (simp add: ringInv_def)
  have ne: "carousel s \<noteq> []" using inv by (auto simp: ringInv_def)
  from n au e p inv ne show ?thesis
    by (simp add: carouselMoveRight_def Let_def ringInv_def nth_append)
qed

lemma ring_moves:
  assumes "ringInv n h k s" "0 \<le> h" "h < int n" "k + length us < n"
    "\<forall>u\<in>set us. 0 \<le> u \<and> u < 1"
  shows "ringInv n h (k + length us) (moveRights n us s)"
  using assms
proof (induction us arbitrary: k s)
  case Nil
  then show ?case by simp
next
  case (Cons u us)
  have "ringInv n h (Suc k) (snd (carouselMoveRight n u s))"
    using Cons.prems by (intro ring_step) auto
  from Cons.IH [OF this] Cons.prems show ?case by simp
qed

lemma ring_init:
  assumes "0 \<le> homeIndex s0" "homeIndex s0 < int n"
  shows "ringInv n (homeIndex s0) 0 (initCarouselWithHomeOrFallback n u0 s0)"
  using assms by (simp add: initCarouselWithHomeOrFallback_def ringInv_def)

lemma full_ring_set:
  assumes "distinct xs" "set xs \<subseteq> {0..<int n}" "length xs = n"
  shows "set xs = {0..<int n}"
proof -
  have "card (set xs) = card {0..<int n}" using assms by (simp add: distinct_card)
  with assms(2) show ?thesis by (simp add: card_subset_eq)
qed

lemma distinct_count_list_one:
  "distinct xs \<Longrightarrow> x \<in> set xs \<Longrightarrow> count_list xs x = 1"
  by (induction xs) auto

text \<open>
  Claim C1. Carousel exhaustion. With \<open>N\<close> non-home levels and one home level (\<open>N + 1\<close>
  levels, a valid home index), start from the home-seeded carousel and make \<open>N\<close>
  rightward moves with any random draws. Then every level index, so every non-home
  index, occurs exactly once in the history; and the next rightward move, move
  \<open>N + 1\<close>, leaves the history as it is and only sets the cursor back to position 0,
  returning the home index, which is already in the history.
\<close>

theorem carousel_exhaustion:
  assumes h: "0 \<le> homeIndex s0" "homeIndex s0 < int (Suc N)"
    and us: "length us = N" "\<forall>u\<in>set us. 0 \<le> u \<and> u < 1"
  shows "let sN = moveRights (Suc N) us (initCarouselWithHomeOrFallback (Suc N) u0 s0)
         in (\<forall>i. 0 \<le> i \<and> i < int (Suc N) \<longrightarrow> count_list (carousel sN) i = 1)
            \<and> carouselMoveRight (Suc N) u sN = (Some (homeIndex s0), sN\<lparr>carouselPos := 0\<rparr>)
            \<and> homeIndex s0 \<in> set (carousel sN)"
proof -
  let ?n = "Suc N"
  let ?h = "homeIndex s0"
  let ?s1 = "initCarouselWithHomeOrFallback ?n u0 s0"
  let ?sN = "moveRights ?n us ?s1"
  have inv: "ringInv ?n ?h N ?sN"
    using ring_moves [OF ring_init [OF h, of u0] h, of us] us by simp
  then have d: "distinct (carousel ?sN)" and l: "length (carousel ?sN) = ?n"
    and sub: "set (carousel ?sN) \<subseteq> {0..<int ?n}" and c0: "carousel ?sN ! 0 = ?h"
    and pos: "carouselPos ?sN = int N" and hi: "homeIndex ?sN = ?h"
    by (simp_all add: ringInv_def)
  have full: "set (carousel ?sN) = {0..<int ?n}" using d sub l by (rule full_ring_set)
  have cnt: "\<forall>i. 0 \<le> i \<and> i < int ?n \<longrightarrow> count_list (carousel ?sN) i = 1"
  proof (intro allI impI)
    fix i :: int assume "0 \<le> i \<and> i < int ?n"
    then have "i \<in> set (carousel ?sN)" unfolding full by simp
    with d show "count_list (carousel ?sN) i = 1" by (rule distinct_count_list_one)
  qed
  have mem: "?h \<in> set (carousel ?sN)" using full h by auto
  have mv: "carouselMoveRight ?n u ?sN = (Some ?h, ?sN\<lparr>carouselPos := 0\<rparr>)"
  proof (cases "N = 0")
    case True
    with us have "us = []" by simp
    with True h show ?thesis
      by (simp add: carouselMoveRight_def initCarouselWithHomeOrFallback_def)
  next
    case False
    have "usedNonHomeCount ?sN = N" using inv h(1) by (rule used_count_home_first)
    moreover have "length (nonHomeIndices ?n ?sN) = ?n - 1"
      using h hi by (simp add: length_nonHomeIndices_home)
    ultimately have au: "allUsed ?n ?sN" by (simp add: allUsed_def)
    have "jsRem (carouselPos ?sN + 1) (int (length (carousel ?sN))) = 0"
      using pos l by (simp add: jsRem_def add.commute)
    with au False l c0 show ?thesis
      by (simp add: carouselMoveRight_def Let_def arrayAt_def)
  qed
  from cnt mv mem show ?thesis by (simp add: Let_def)
qed

theorem carousel_exhaustion_witness:
  "let s0 = \<lparr>levelIndex = Some 0, transitioning = False, transitionUntil = 0, lastEdge = None,
             carousel = [], carouselPos = 0, homeIndex = 1\<rparr>;
       sN = moveRights 3 [1 / 2, 0] (initCarouselWithHomeOrFallback 3 0 s0)
   in carousel sN = [1, 2, 0]
      \<and> (\<forall>i. 0 \<le> i \<and> i < 3 \<longrightarrow> count_list (carousel sN) i = 1)
      \<and> carouselMoveRight 3 0 sN = (Some 1, sN\<lparr>carouselPos := 0\<rparr>)
      \<and> 1 \<in> set (carousel sN)"
proof -
  let ?s0 = "\<lparr>levelIndex = Some 0, transitioning = False, transitionUntil = 0, lastEdge = None,
             carousel = [], carouselPos = 0, homeIndex = 1\<rparr>"
  have c: "carousel (moveRights 3 [1 / 2, 0] (initCarouselWithHomeOrFallback 3 0 ?s0)) = [1, 2, 0]"
    by (simp add: initCarouselWithHomeOrFallback_def carouselMoveRight_def allUsed_def
        usedNonHomeCount_def nonHomeIndices_def isHomeIndex_def pickUnusedNonHomeLevelIndex_def
        randInt_def Let_def upt_rec)
  show ?thesis
    using carousel_exhaustion [of ?s0 2 "[1 / 2, 0]" 0 0] c
    by (simp add: Let_def)
qed

subsection \<open>The carousel invariant\<close>

text \<open>
  Claim C10. Every carousel operation keeps the invariant \<open>carouselInv\<close>: the history
  has no duplicate level index, is never longer than the number of loaded levels, and
  the cursor is a valid index into it. Seeding establishes it for a pool of at least one
  level; \<open>carouselMoveRight\<close> and \<open>carouselMoveLeft\<close> preserve it, for a home index that
  is \<open>-1\<close> or an index of the pool (what \<open>findIndex\<close> yields) and a random draw in
  \<open>[0, 1)\<close>.
\<close>

theorem carousel_invariant_preserved:
  "(1 \<le> n \<longrightarrow> carouselInv n (initCarouselWithHomeOrFallback n u s0))
   \<and> (homeOk n s \<and> carouselInv n s \<and> 0 \<le> u \<and> u < 1 \<longrightarrow>
        carouselInv n (snd (carouselMoveRight n u s))
        \<and> carouselInv n (snd (carouselMoveLeft n u s)))"
  using init_inv [of n u s0] carouselMoveRight_inv [of n s u] carouselMoveLeft_inv [of n s u]
  by blast

theorem carousel_invariant_preserved_witness:
  "let s = \<lparr>levelIndex = Some 0, transitioning = False, transitionUntil = 0, lastEdge = None,
            carousel = [0], carouselPos = 0, homeIndex = 0\<rparr>
   in (1::nat) \<le> 3 \<and> homeOk 3 s \<and> carouselInv 3 s \<and> (0::real) \<le> 1 / 2 \<and> (1 / 2 :: real) < 1
      \<and> carouselInv 3 (initCarouselWithHomeOrFallback 3 (1 / 2) s)
      \<and> carouselInv 3 (snd (carouselMoveRight 3 (1 / 2) s))
      \<and> carouselInv 3 (snd (carouselMoveLeft 3 (1 / 2) s))
      \<and> carousel (snd (carouselMoveRight 3 (1 / 2) s)) = [0, 2]
      \<and> carouselPos (snd (carouselMoveRight 3 (1 / 2) s)) = 1
      \<and> carousel (snd (carouselMoveLeft 3 (1 / 2) s)) = [2, 0]
      \<and> carouselPos (snd (carouselMoveLeft 3 (1 / 2) s)) = 0"
  using carousel_invariant_preserved [of 3 "1 / 2"
      "\<lparr>levelIndex = Some 0, transitioning = False, transitionUntil = 0, lastEdge = None,
        carousel = [0], carouselPos = 0, homeIndex = 0\<rparr>"
      "\<lparr>levelIndex = Some 0, transitioning = False, transitionUntil = 0, lastEdge = None,
        carousel = [0], carouselPos = 0, homeIndex = 0\<rparr>"]
  by (simp add: homeOk_def carouselInv_def carouselMoveLeft_def carouselMoveRight_def allUsed_def
        usedNonHomeCount_def nonHomeIndices_def isHomeIndex_def pickUnusedNonHomeLevelIndex_def
        randInt_def Let_def upt_rec)

subsection \<open>Facts about the transition helpers\<close>

lemma lastEdge_moves:
  "lastEdge (snd (carouselMoveRight n u s)) = lastEdge s"
  "lastEdge (snd (carouselMoveLeft n u s)) = lastEdge s"
  by (simp_all add: carouselMoveRight_def carouselMoveLeft_def Let_def)

lemma setAnim_Idle:
  "anim (setAnim Idle p) = Idle" "xpos (setAnim Idle p) = xpos p"
  "facing (setAnim Idle p) = facing p" "renderW (setAnim Idle p) = renderW p"
  by (simp_all add: setAnim_def)

subsection \<open>Completing a transition\<close>

text \<open>
  Claim C6. After \<open>finishTransition\<close> the player's animation mode is idle, the player is
  visible and the state is steady again. If the triggering edge was the left one, the
  player stands at \<open>W - renderW - 2\<close>, two pixels inside the right bound \<open>W - renderW\<close>,
  and faces left (\<open>-1\<close>); if it was the right one, the player stands at \<open>2\<close>, two
  pixels inside the left bound \<open>0\<close>, and faces right (\<open>1\<close>).
\<close>

theorem finishTransition_places_player:
  "let (s', p') = finishTransition W n u (s, p)
   in anim p' = Idle \<and> visible p' \<and> \<not> transitioning s'
      \<and> (lastEdge s = Some EdgeLeft \<longrightarrow>
            xpos p' = W - renderW p - 2 \<and> facing p' = - 1
            \<and> \<bar>xpos p' - (W - renderW p')\<bar> \<le> 2)
      \<and> (lastEdge s = Some EdgeRight \<longrightarrow>
            xpos p' = 2 \<and> facing p' = 1 \<and> \<bar>xpos p' - 0\<bar> \<le> 2)"
proof (cases "lastEdge s = Some EdgeLeft")
  case True
  obtain r s1 where m: "carouselMoveLeft n u s = (r, s1)" by (cases "carouselMoveLeft n u s")
  then have "lastEdge s1 = lastEdge s" using lastEdge_moves(2) [of n u s] by simp
  with True m show ?thesis
    by (simp add: finishTransition_def Let_def setAnim_Idle)
next
  case False
  obtain r s1 where m: "carouselMoveRight n u s = (r, s1)" by (cases "carouselMoveRight n u s")
  then have "lastEdge s1 = lastEdge s" using lastEdge_moves(1) [of n u s] by simp
  with False m show ?thesis
    by (simp add: finishTransition_def Let_def setAnim_Idle)
qed

theorem finishTransition_places_player_witness:
  "finishTransition 960 3 (1 / 2)
     (\<lparr>levelIndex = Some 0, transitioning = True, transitionUntil = 560,
       lastEdge = Some EdgeLeft, carousel = [0], carouselPos = 0, homeIndex = 0\<rparr>,
      \<lparr>xpos = 0, speed = 90, visible = False, facing = - 1, anim = Walk, frameIndex = 3,
       frameTimer = 0.02, renderW = 26, renderH = 56\<rparr>)
   = (\<lparr>levelIndex = Some 2, transitioning = False, transitionUntil = 560,
       lastEdge = Some EdgeLeft, carousel = [2, 0], carouselPos = 0, homeIndex = 0\<rparr>,
      \<lparr>xpos = 932, speed = 90, visible = True, facing = - 1, anim = Idle, frameIndex = 0,
       frameTimer = 0, renderW = 26, renderH = 56\<rparr>)
   \<and> finishTransition 960 3 (1 / 2)
     (\<lparr>levelIndex = Some 0, transitioning = True, transitionUntil = 560,
       lastEdge = Some EdgeRight, carousel = [0], carouselPos = 0, homeIndex = 0\<rparr>,
      \<lparr>xpos = 934, speed = 90, visible = False, facing = 1, anim = Walk, frameIndex = 3,
       frameTimer = 0.02, renderW = 26, renderH = 56\<rparr>)
   = (\<lparr>levelIndex = Some 2, transitioning = False, transitionUntil = 560,
       lastEdge = Some EdgeRight, carousel = [0, 2], carouselPos = 1, homeIndex = 0\<rparr>,
      \<lparr>xpos = 2, speed = 90, visible = True, facing = 1, anim = Idle, frameIndex = 0,
       frameTimer = 0, renderW = 26, renderH = 56\<rparr>)"
  using finishTransition_places_player [of 960 3 "1 / 2"
      "\<lparr>levelIndex = Some 0, transitioning = True, transitionUntil = 560,
        lastEdge = Some EdgeLeft, carousel = [0], carouselPos = 0, homeIndex = 0\<rparr>"
      "\<lparr>xpos = 0, speed = 90, visible = False, facing = - 1, anim = Walk, frameIndex = 3,
        frameTimer = 0.02, renderW = 26, renderH = 56\<rparr>"]
    finishTransition_places_player [of 960 3 "1 / 2"
      "\<lparr>levelIndex = Some 0, transitioning = True, transitionUntil = 560,
        lastEdge = Some EdgeRight, carousel = [0], carouselPos = 0, homeIndex = 0\<rparr>"
      "\<lparr>xpos = 934, speed = 90, visible = False, facing = 1, anim = Walk, frameIndex = 3,
        frameTimer = 0.02, renderW = 26, renderH = 56\<rparr>"]
  by (simp add: finishTransition_def carouselMoveLeft_def carouselMoveRight_def allUsed_def
        usedNonHomeCount_def nonHomeIndices_def isHomeIndex_def pickUnusedNonHomeLevelIndex_def
        randInt_def Let_def upt_rec setAnim_def)

subsection \<open>Facts about level loading\<close>

lemma loadEach_levels:
  "fst (loadEach loads lvls (loaded, assets)) = loaded @ filter (backgroundLoads loads) lvls"
proof (induction lvls arbitrary: loaded assets)
  case Nil
  then show ?case by simp
next
  case (Cons lvl rest)
  show ?case
  proof (cases "backgroundLoads loads lvl")
    case True
    then show ?thesis
      by (simp add: Cons.IH backgroundLoads_def loadImage_def Let_def)
  next
    case False
    then show ?thesis
      by (auto simp: Cons.IH backgroundLoads_def loadImage_def Let_def)
  qed
qed

lemma findIndexFrom_none:
  "0 \<le> i \<Longrightarrow> findIndexFrom P i xs = - 1 \<longleftrightarrow> \<not> (\<exists>x\<in>set xs. P x)"
  by (induction xs arbitrary: i) auto

lemma findIndexFrom_some:
  assumes "\<exists>x\<in>set xs. P x"
  shows "\<exists>h. findIndexFrom P i xs = i + int h \<and> h < length xs \<and> P (xs ! h)
             \<and> (\<forall>j<h. \<not> P (xs ! j))"
  using assms
proof (induction xs arbitrary: i)
  case Nil
  then show ?case by simp
next
  case (Cons x xs)
  show ?case
  proof (cases "P x")
    case True
    then have "findIndexFrom P i (x # xs) = i + int 0 \<and> 0 < length (x # xs) \<and> P ((x # xs) ! 0)
             \<and> (\<forall>j<0. \<not> P ((x # xs) ! j))" by simp
    then show ?thesis by blast
  next
    case False
    with Cons.prems have "\<exists>y\<in>set xs. P y" by simp
    from Cons.IH [OF this, of "i + 1"] obtain h where
      h: "findIndexFrom P (i + 1) xs = i + 1 + int h" "h < length xs" "P (xs ! h)"
         "\<forall>j<h. \<not> P (xs ! j)" by blast
    have "findIndexFrom P i (x # xs) = i + int (Suc h) \<and> Suc h < length (x # xs)
          \<and> P ((x # xs) ! Suc h) \<and> (\<forall>j<Suc h. \<not> P ((x # xs) ! j))"
      using False h by (auto simp: less_Suc_eq_0_disj)
    then show ?thesis by blast
  qed
qed

lemma loadLevels_success:
  assumes "loadLevels loads res u assets0 s = Inr (ld, assets, s')"
  shows "\<exists>levels. res = Document (LevelsArray levels)
           \<and> ld = filter (backgroundLoads loads) levels \<and> ld \<noteq> []
           \<and> s' = initCarouselWithHomeOrFallback (length ld) u (s\<lparr>homeIndex := findIndex isHome ld\<rparr>)"
proof -
  from assms obtain levels where r: "res = Document (LevelsArray levels)"
    by (auto simp: loadLevels_def split: fetched.splits levelsMember.splits)
  obtain ll aa where e: "loadEach loads levels ([], assets0) = (ll, aa)"
    by (cases "loadEach loads levels ([], assets0)")
  have ll: "ll = filter (backgroundLoads loads) levels"
    using loadEach_levels [of loads levels "[]" assets0] e by simp
  from assms r e have "ll \<noteq> []" "ld = ll"
    "s' = initCarouselWithHomeOrFallback (length ll) u (s\<lparr>homeIndex := findIndex isHome ll\<rparr>)"
    by (auto simp: loadLevels_def Let_def split: if_splits)
  with r ll show ?thesis by blast
qed






lemma findIndex_range: "findIndex P xs = - 1 \<or> (0 \<le> findIndex P xs \<and> findIndex P xs < int (length xs))"
proof (cases "\<exists>x\<in>set xs. P x")
  case True
  from findIndexFrom_some [OF True, of 0] show ?thesis by (auto simp: findIndex_def)
next
  case False
  then show ?thesis using findIndexFrom_none [of 0 P xs] by (simp add: findIndex_def)
qed

text \<open>A successful load leaves a state that meets the hypotheses of the carousel invariant.\<close>

lemma loadLevels_establishes_invariant:
  assumes "loadLevels loads res u assets0 s = Inr (ld, assets, s')"
  shows "homeOk (length ld) s' \<and> carouselInv (length ld) s'"
proof -
  from loadLevels_success [OF assms] have ne: "ld \<noteq> []"
    and s': "s' = initCarouselWithHomeOrFallback (length ld) u (s\<lparr>homeIndex := findIndex isHome ld\<rparr>)"
    by auto
  have "homeIndex s' = findIndex isHome ld" unfolding s' by (simp add: homeIndex_moves)
  with findIndex_range [of isHome ld] have "homeOk (length ld) s'" by (simp add: homeOk_def)
  moreover have "1 \<le> length ld" using ne by (cases ld) simp_all
  then have "carouselInv (length ld) s'" unfolding s' by (rule init_inv)
  ultimately show ?thesis by simp
qed

subsection \<open>Fatal and tolerated load failures\<close>



subsection \<open>Seeding at startup\<close>



subsection \<open>Facts about the animation timer\<close>

lemma currentFps_pos: "0 < currentFps p" "1 / currentFps p > 0.033"
  by (simp_all add: currentFps_def)

lemma jsRem_idem:
  assumes "0 < b"
  shows "jsRem (jsRem a b) b = jsRem a b"
proof (cases "0 \<le> a")
  case True
  then show ?thesis using assms by (simp add: jsRem_def)
next
  case False
  have "0 \<le> (- a) mod b" "(- a) mod b < b" using assms by simp_all
  then show ?thesis using False by (simp add: jsRem_def)
qed

lemma animatePlayer_fields:
  "anim (animatePlayer idleLen walkLen dt q) = anim q"
  "visible (animatePlayer idleLen walkLen dt q) = visible q"
  "frameIndex (animatePlayer idleLen walkLen dt q) = frameIndex q
     \<or> frameIndex (animatePlayer idleLen walkLen dt q)
          = jsRem (frameIndex q + 1) (int (framesLen idleLen walkLen q))"
  by (simp_all add: animatePlayer_def Let_def framesLen_def currentFramesLength_def)

lemma animatePlayer_timer:
  assumes "frameTimer q < 1 / currentFps q" "dt \<le> 0.033"
  shows "frameTimer (animatePlayer idleLen walkLen dt q) < 1 / currentFps q"
proof -
  have "dt < 1 / currentFps q" using currentFps_pos(2) [of q] assms(2) by simp
  with assms(1) show ?thesis by (simp add: animatePlayer_def Let_def)
qed

lemma drawPlayer_fields:
  "anim (drawPlayer idleLen walkLen q) = anim q"
  "frameTimer (drawPlayer idleLen walkLen q) = frameTimer q"
  "jsRem (frameIndex (drawPlayer idleLen walkLen q)) (int (framesLen idleLen walkLen q))
     = jsRem (frameIndex q) (int (framesLen idleLen walkLen q))"
proof -
  show "anim (drawPlayer idleLen walkLen q) = anim q"
    and "frameTimer (drawPlayer idleLen walkLen q) = frameTimer q"
    by (simp_all add: drawPlayer_def)
  show "jsRem (frameIndex (drawPlayer idleLen walkLen q)) (int (framesLen idleLen walkLen q))
     = jsRem (frameIndex q) (int (framesLen idleLen walkLen q))"
  proof (cases "visible q \<and> currentFramesLength idleLen walkLen q \<noteq> 0")
    case True
    then have "0 < int (currentFramesLength idleLen walkLen q)" by simp
    from jsRem_idem [OF this] True show ?thesis by (simp add: drawPlayer_def framesLen_def)
  next
    case False
    then show ?thesis by (auto simp: drawPlayer_def)
  qed
qed



text \<open>
  What a steady tick of \<open>loop\<close> does to the player: up to the edge checks the
  animation fields are as \<open>setAnim\<close> left them; then come the animate block and
  \<open>drawPlayer\<close>.
\<close>

lemma loop_steady:
  assumes st: "\<not> transitioning s"
    and step: "\<And>p4. anim p4 = anim (setAnim (tickMode inp) p) \<Longrightarrow>
                 frameIndex p4 = frameIndex (setAnim (tickMode inp) p) \<Longrightarrow>
                 frameTimer p4 = frameTimer (setAnim (tickMode inp) p) \<Longrightarrow>
                 P (drawPlayer idleLen walkLen
                      (animatePlayer idleLen walkLen (min 0.033 ((t - lastT) / 1000)) p4))"
  shows "P (snd (snd (loop W n idleLen walkLen inp now u t (lastT, s, p))))"
proof -
  let ?q = "setAnim (tickMode inp) p"
  let ?vx = "(if left inp then - 1 else 0) + (if right inp then 1 else (0::int))"
  have mode: "(if ?vx = 0 then Idle else Walk) = tickMode inp"
    by (simp add: tickMode_def)
  let ?p1 = "(if ?vx \<noteq> 0 then p\<lparr>facing := (if ?vx > 0 then 1 else - 1)\<rparr> else p)"
  let ?p2 = "setAnim (if ?vx = 0 then Idle else Walk) ?p1"
  let ?dt = "min 0.033 ((t - lastT) / 1000)"
  let ?p3 = "?p2\<lparr>xpos := xpos ?p2 + of_int ?vx * speed ?p2 * ?dt\<rparr>"
  let ?e = "(if xpos ?p3 \<le> 0 then triggerEdge EdgeLeft now (s, ?p3\<lparr>xpos := 0\<rparr>)
            else if xpos ?p3 \<ge> W - renderW ?p3
            then triggerEdge EdgeRight now (s, ?p3\<lparr>xpos := W - renderW ?p3\<rparr>)
            else (s, ?p3))"
  have p2: "anim ?p2 = anim ?q" "frameIndex ?p2 = frameIndex ?q" "frameTimer ?p2 = frameTimer ?q"
    unfolding mode by (simp_all add: setAnim_def)
  have e: "anim (snd ?e) = anim ?q" "frameIndex (snd ?e) = frameIndex ?q"
    "frameTimer (snd ?e) = frameTimer ?q"
    using p2 st by (simp_all add: triggerEdge_def)
  have "snd (snd (loop W n idleLen walkLen inp now u t (lastT, s, p)))
        = drawPlayer idleLen walkLen (animatePlayer idleLen walkLen ?dt (snd ?e))"
    using st by (simp add: loop_def Let_def case_prod_beta)
  with step [OF e] show ?thesis by simp
qed


lemma currentFps_cong: "anim a = anim b \<Longrightarrow> currentFps a = currentFps b"
  by (simp add: currentFps_def)


lemma setAnim_timer:
  assumes "frameTimer p < 1 / currentFps p"
  shows "frameTimer (setAnim m p) < 1 / currentFps (setAnim m p)"
proof (cases "anim p = m")
  case True
  with assms show ?thesis by (simp add: setAnim_def)
next
  case False
  then have "frameTimer (setAnim m p) = 0" by (simp add: setAnim_def)
  with currentFps_pos(1) [of "setAnim m p"] show ?thesis by simp
qed

text \<open>
  The timer stays below the frame interval over every call of \<open>loop\<close>, steady or
  transitioning, so the hypothesis of the next theorem holds from the initial player on.
\<close>

lemma loop_keeps_timer_below_interval:
  assumes "frameTimer p < 1 / currentFps p"
  shows "frameTimer (snd (snd (loop W n idleLen walkLen inp now u t (lastT, s, p))))
         < 1 / currentFps (snd (snd (loop W n idleLen walkLen inp now u t (lastT, s, p))))"
proof (cases "transitioning s")
  case False
  let ?dt = "min 0.033 ((t - lastT) / 1000)"
  show ?thesis
  proof (rule loop_steady [OF False])
    fix p4 :: player
    assume a: "anim p4 = anim (setAnim (tickMode inp) p)"
      and tm: "frameTimer p4 = frameTimer (setAnim (tickMode inp) p)"
    have "frameTimer p4 < 1 / currentFps p4"
      using setAnim_timer [OF assms, of "tickMode inp"] tm currentFps_cong [OF a] by simp
    then have "frameTimer (animatePlayer idleLen walkLen ?dt p4) < 1 / currentFps p4"
      by (rule animatePlayer_timer) simp
    then show "frameTimer (drawPlayer idleLen walkLen (animatePlayer idleLen walkLen ?dt p4))
         < 1 / currentFps (drawPlayer idleLen walkLen (animatePlayer idleLen walkLen ?dt p4))"
      by (simp add: drawPlayer_fields animatePlayer_fields currentFps_def)
  qed
next
  case True
  have fin: "frameTimer (snd (finishTransition W n u (s, p)))
             < 1 / currentFps (snd (finishTransition W n u (s, p)))"
  proof -
    have "\<exists>x f. snd (finishTransition W n u (s, p))
                 = (setAnim Idle (p\<lparr>xpos := x, facing := f\<rparr>))\<lparr>visible := True\<rparr>"
      by (auto simp: finishTransition_def Let_def split: prod.splits)
    then obtain x f where e: "snd (finishTransition W n u (s, p))
                 = (setAnim Idle (p\<lparr>xpos := x, facing := f\<rparr>))\<lparr>visible := True\<rparr>" by blast
    let ?q = "setAnim Idle (p\<lparr>xpos := x, facing := f\<rparr>)"
    have "frameTimer (p\<lparr>xpos := x, facing := f\<rparr>) < 1 / currentFps (p\<lparr>xpos := x, facing := f\<rparr>)"
      using assms currentFps_cong [of "p\<lparr>xpos := x, facing := f\<rparr>" p] by simp
    then have "frameTimer ?q < 1 / currentFps ?q" by (rule setAnim_timer)
    moreover have "currentFps (?q\<lparr>visible := True\<rparr>) = currentFps ?q"
      by (rule currentFps_cong) simp
    ultimately show ?thesis unfolding e by simp
  qed
  have dp: "frameTimer (drawPlayer idleLen walkLen q) < 1 / currentFps (drawPlayer idleLen walkLen q)"
    if "frameTimer q < 1 / currentFps q" for q
    using that currentFps_cong [of "drawPlayer idleLen walkLen q" q]
    by (simp add: drawPlayer_fields)
  have "snd (snd (loop W n idleLen walkLen inp now u t (lastT, s, p)))
        = drawPlayer idleLen walkLen
            (if now \<ge> transitionUntil s then snd (finishTransition W n u (s, p)) else p)"
    using True by (simp add: loop_def Let_def case_prod_beta)
  then show ?thesis using fin assms dp by simp
qed

subsection \<open>The player's animation under the clamp\<close>




subsection \<open>The pan bound\<close>

lemma clamp_symmetric_bound:
  assumes "0 \<le> m"
  shows "\<bar>clamp v (- m) m\<bar> \<le> m"
  using assms by (simp add: clamp_def abs_le_iff max_def min_def)

text \<open>
  Claim C3. For every image, every zoom factor (a factor of at least 1, on a canvas of
  width \<open>W \<ge> 0\<close>), every follow strength and every player position, the pan that
  \<open>drawZoomPanFollow\<close> computes has magnitude at most
  \<open>min ((zoom * W - W) / 2) MAX_PAN_PX\<close>, and the image it draws covers the viewport
  horizontally: its left edge is at \<open>x \<le> 0\<close> and its right edge at \<open>x + drawW \<ge> W\<close>,
  so no edge of the image is exposed.
\<close>

theorem pan_bounded_by_zoom_margin:
  assumes "0 \<le> W" and "1 \<le> zoom"
  shows "\<bar>panOf W p zoom followStrength\<bar> \<le> min ((zoom * W - W) / 2) MAX_PAN_PX
         \<and> (case drawZoomPanFollow W H p (Some img) zoom followStrength of
               Some (x, y, drawW, drawH) \<Rightarrow> x \<le> 0 \<and> W \<le> x + drawW
             | None \<Rightarrow> False)"
proof -
  let ?m = "min ((W * zoom - W) / 2) MAX_PAN_PX"
  have "W * 1 \<le> W * zoom" using assms by (intro mult_left_mono) auto
  then have m0: "0 \<le> ?m" by (simp add: MAX_PAN_PX_def)
  have pan: "\<bar>panOf W p zoom followStrength\<bar> \<le> ?m"
    unfolding panOf_def Let_def using m0 by (rule clamp_symmetric_bound)
  then have "\<bar>panOf W p zoom followStrength\<bar> \<le> (W * zoom - W) / 2" by linarith
  then have "- (W * zoom - W) / 2 + panOf W p zoom followStrength \<le> 0"
    and "W \<le> - (W * zoom - W) / 2 + panOf W p zoom followStrength + W * zoom"
    by (simp_all add: abs_le_iff field_simps)
  with pan show ?thesis
    by (simp add: drawZoomPanFollow_def Let_def mult.commute)
qed

theorem pan_bounded_by_zoom_margin_witness:
  "(0::real) \<le> 960 \<and> (1::real) \<le> 1.05
   \<and> panOf 960 ((initialPlayer 960)\<lparr>xpos := 934\<rparr>) 1.05 1 = 24
   \<and> \<bar>panOf 960 ((initialPlayer 960)\<lparr>xpos := 934\<rparr>) 1.05 1\<bar> \<le> min ((1.05 * 960 - 960) / 2) MAX_PAN_PX
   \<and> drawZoomPanFollow 960 640 ((initialPlayer 960)\<lparr>xpos := 934\<rparr>) (Some ''bg.png'') 1.05 1
       = Some (0, - 16, 1008, 672)"
  using pan_bounded_by_zoom_margin [of 960 "1.05" "(initialPlayer 960)\<lparr>xpos := 934\<rparr>" 1 640 "''bg.png''"]
  by (simp add: panOf_def drawZoomPanFollow_def getHeroNormalizedX_def clamp_def MAX_PAN_PX_def
      initialPlayer_def Let_def)

end
